theory Spec2Isabelle
  imports Main "HOL-Library.List_Lexorder" "HOL-Library.Char_ord" "HOL-Library.Word"
begin

section \<open>Python strings\<close>

text \<open>
  The chunker and the concatenator of \<^verbatim>\<open>repomix/utils/parser.py\<close> work on Python
  \<^verbatim>\<open>str\<close> values.  A string is modelled as a \<^typ>\<open>string\<close>, one \<^typ>\<open>char\<close> per
  code point (code points up to 255).  The operations below are the built-ins the source
  calls: \<^verbatim>\<open>str.split("\n")\<close>, \<^verbatim>\<open>"\n".join\<close>, \<^verbatim>\<open>str.strip()\<close>,
  \<^verbatim>\<open>str.lstrip('/')\<close>, \<^verbatim>\<open>str.startswith\<close> and the format specification
  \<^verbatim>\<open>{n:03d}\<close>.
\<close>

definition newline :: char where
  "newline = CHR 0x0A"

text \<open>\<^verbatim>\<open>content.split("\n")\<close>: never the empty list, one more piece than newlines.\<close>

fun split_lines :: "string \<Rightarrow> string list" where
  "split_lines [] = [[]]"
| "split_lines (c # cs) =
     (if c = newline then [] # split_lines cs
      else (case split_lines cs of [] \<Rightarrow> [[c]] | l # ls \<Rightarrow> (c # l) # ls))"

text \<open>\<^verbatim>\<open>"\n".join(parts)\<close>.\<close>

fun join_lines :: "string list \<Rightarrow> string" where
  "join_lines [] = []"
| "join_lines [l] = l"
| "join_lines (l # m # ls) = l @ newline # join_lines (m # ls)"

text \<open>
  \<^verbatim>\<open>str.isspace\<close> on one code point below 256: the ASCII controls 9 to 13 and 28 to 31,
  the space, NEL (133) and the no-break space (160).
\<close>

definition is_space :: "char \<Rightarrow> bool" where
  "is_space c = (let n = (of_char c :: nat)
                 in (9 \<le> n \<and> n \<le> 13) \<or> (28 \<le> n \<and> n \<le> 32) \<or> n = 133 \<or> n = 160)"

definition lstrip :: "string \<Rightarrow> string" where
  "lstrip s = dropWhile is_space s"

definition rstrip :: "string \<Rightarrow> string" where
  "rstrip s = rev (dropWhile is_space (rev s))"

text \<open>\<^verbatim>\<open>s.strip()\<close>.\<close>

definition strip :: "string \<Rightarrow> string" where
  "strip s = rstrip (lstrip s)"

text \<open>\<^verbatim>\<open>s.lstrip('/')\<close>.\<close>

definition lstrip_slash :: "string \<Rightarrow> string" where
  "lstrip_slash s = dropWhile (\<lambda>c. c = CHR ''/'') s"

text \<open>\<^verbatim>\<open>s.startswith(p)\<close>.\<close>

definition startswith :: "string \<Rightarrow> string \<Rightarrow> bool" where
  "startswith s p = (take (length p) s = p)"

text \<open>\<^verbatim>\<open>str(n)\<close> for a non-negative integer: its decimal digits.\<close>

definition digit_char :: "nat \<Rightarrow> char" where
  "digit_char d = char_of (of_char (CHR ''0'') + d)"

fun str_nat :: "nat \<Rightarrow> string" where
  "str_nat n = (if n < 10 then [digit_char n] else str_nat (n div 10) @ [digit_char (n mod 10)])"

declare str_nat.simps [simp del]

text \<open>\<^verbatim>\<open>f"{n:03d}"\<close>: the decimal digits, padded with zeros on the left to width 3.\<close>

definition format_03d :: "nat \<Rightarrow> string" where
  "format_03d n = replicate (3 - length (str_nat n)) (CHR ''0'') @ str_nat n"

section \<open>Exceptions\<close>

text \<open>
  The exceptions that the modelled functions raise or handle:
  \<^verbatim>\<open>ValueError\<close> (raised by \<^verbatim>\<open>glob_files\<close>, by \<^verbatim>\<open>Path.relative_to\<close>, by
  \<^verbatim>\<open>Path.match\<close> on an empty pattern, and by the encoder of \<^verbatim>\<open>count_tokens\<close> on a
  text that contains a special token), \<^verbatim>\<open>UnicodeDecodeError\<close> (caught by
  \<^verbatim>\<open>concatenate_files\<close>), \<^verbatim>\<open>OSError\<close> with its subclass \<^verbatim>\<open>FileNotFoundError\<close>
  (what \<^verbatim>\<open>collect_files\<close> raises for a missing directory), and
  \<^verbatim>\<open>litellm.exceptions.NotFoundError\<close>, which the query layer tells apart from every
  other exception.  A function that can raise returns \<open>Inl\<close> of the exception.
\<close>

datatype error =
    ValueError string
  | UnicodeDecodeError
  | OSError string
  | FileNotFoundError string
  | NotFoundError string

section \<open>The tokenizer\<close>

text \<open>
  \<^verbatim>\<open>count_tokens\<close> is \<^verbatim>\<open>len(tiktoken.get_encoding("cl100k_base").encode(text))\<close>:
  the encoder belongs to an external library, so every function of the chunker takes the
  token counter as its first argument.  Budgets are Python integers: \<^verbatim>\<open>token_limit -
  count_tokens(header)\<close> is negative when the header alone exceeds the budget.

  The encoder is called with its default \<^verbatim>\<open>disallowed_special\<close>, so it raises
  \<^verbatim>\<open>ValueError\<close> on a text that contains a special token such as
  \<^verbatim>\<open><|endoftext|>\<close>, and nothing in the chunker catches it.  The chunker is therefore
  given twice: first over a counter \<open>ct\<close> that returns a count for every text, a total and
  deterministic function from strings to natural numbers; then, in the section on the
  raising token counter, over a counter \<open>tok\<close> that may raise, with every call of
  \<^verbatim>\<open>count_tokens\<close> in the order of the source.  The two agree for a counter that never
  raises.
\<close>

type_synonym tokenizer = "string \<Rightarrow> nat"


text \<open>
  Where a theorem evaluates the chunker on a concrete input, the counter is the
  byte-level one with no merges: every character is one token.
\<close>

definition char_tokens :: tokenizer where
  "char_tokens s = length s"

section \<open>Splitting one long line\<close>

text \<open>\<^verbatim>\<open>format_file_section\<close> (parser.py, line 156).\<close>

definition format_file_section :: "string \<Rightarrow> string \<Rightarrow> string" where
  "format_file_section filepath content = ''File: '' @ filepath @ [newline] @ content"

text \<open>The display name of a numbered part, \<^verbatim>\<open>f"{part_number:03d}_{filename}"\<close>.\<close>

definition part_name :: "nat \<Rightarrow> string \<Rightarrow> string" where
  "part_name part_number filename = format_03d part_number @ ''_'' @ filename"

text \<open>
  The binary search of lines 177 to 183: \<^verbatim>\<open>while left < right - 1\<close> on Python
  integers, with \<open>0 \<le> left\<close>, is \<open>left + 1 < right\<close> on naturals.
\<close>

function bsearch :: "tokenizer \<Rightarrow> int \<Rightarrow> string \<Rightarrow> nat \<Rightarrow> nat \<Rightarrow> nat" where
  "bsearch ct available_tokens current_part left right =
     (if left + 1 < right then
        (let mid = (left + right) div 2
         in if int (ct (take mid current_part)) \<le> available_tokens
            then bsearch ct available_tokens current_part mid right
            else bsearch ct available_tokens current_part left mid)
      else left)"
  by pat_completeness auto
termination
  by (relation "measure (\<lambda>(ct, a, s, l, r). r - l)") auto

declare bsearch.simps [simp del]

lemma bsearch_less: "left < right \<Longrightarrow> bsearch ct a s left right < right"
proof (induction ct a s left right rule: bsearch.induct)
  case (1 ct a s left right)
  show ?case
  proof (cases "left + 1 < right")
    case True
    then have m: "left < (left + right) div 2" "(left + right) div 2 < right" by auto
    show ?thesis
    proof (cases "int (ct (take ((left + right) div 2) s)) \<le> a")
      case fits: True
      with True m "1.IH"(1) [OF True refl fits] show ?thesis
        by (subst bsearch.simps) simp
    next
      case nofit: False
      with True m "1.IH"(2) [OF True refl nofit] "1.prems" show ?thesis
        by (subst bsearch.simps) (simp add: Let_def)
    qed
  next
    case False
    with "1.prems" show ?thesis by (subst bsearch.simps) simp
  qed
qed

text \<open>
  The inner \<^verbatim>\<open>while count_tokens(current_part) > available_tokens\<close> loop of lines 175
  to 191, with its \<^verbatim>\<open>break\<close> when the binary search leaves nothing.
\<close>

function shrink_part :: "tokenizer \<Rightarrow> int \<Rightarrow> string \<Rightarrow> string \<Rightarrow> string" where
  "shrink_part ct available_tokens remaining current_part =
     (if int (ct current_part) > available_tokens then
        (let left = bsearch ct available_tokens current_part 0 (length current_part);
             current_part' = take left current_part
         in if current_part' = []
            then take (max 1 (length remaining div 2)) remaining
            else shrink_part ct available_tokens remaining current_part')
      else current_part)"
  by pat_completeness auto
termination
proof (relation "measure (\<lambda>(ct, a, r, c). length c)", goal_cases)
  case 1
  show ?case by simp
next
  case (2 ct available_tokens remaining current_part left current_part')
  then have "current_part \<noteq> []" by auto
  then have "bsearch ct available_tokens current_part 0 (length current_part) < length current_part"
    by (intro bsearch_less) simp
  with 2 show ?case by simp
qed

declare shrink_part.simps [simp del]

lemma shrink_part_nonempty:
  "remaining \<noteq> [] \<Longrightarrow> current_part \<noteq> [] \<Longrightarrow>
   shrink_part ct a remaining current_part \<noteq> []"
proof (induction ct a remaining current_part rule: shrink_part.induct)
  case (1 ct a remaining current_part)
  show ?case
  proof (cases "int (ct current_part) > a")
    case False
    with "1.prems" show ?thesis by (subst shrink_part.simps) simp
  next
    case over: True
    let ?cp = "take (bsearch ct a current_part 0 (length current_part)) current_part"
    show ?thesis
    proof (cases "?cp = []")
      case True
      with over "1.prems" show ?thesis
        by (subst shrink_part.simps) (simp add: Let_def)
    next
      case False
      with over "1.IH" [OF over refl refl False "1.prems"(1) False] show ?thesis
        by (subst shrink_part.simps) (simp add: Let_def)
    qed
  qed
qed

text \<open>
  The outer \<^verbatim>\<open>while remaining\<close> loop of \<^verbatim>\<open>split_long_line\<close> (lines 167 to 203).
  Its result is the list \<^verbatim>\<open>line_chunks\<close>, first appended chunk first.  The "safety
  check" of lines 201 to 203 compares with the length of the whole line.
\<close>

function split_loop ::
  "tokenizer \<Rightarrow> string \<Rightarrow> string \<Rightarrow> int \<Rightarrow> string \<Rightarrow> nat \<Rightarrow> string list" where
  "split_loop ct line filename token_limit remaining part_number =
     (if remaining = [] then []
      else
        (let prefix = format_03d part_number;
             header = format_file_section (prefix @ ''_'' @ filename) [];
             available_tokens = token_limit - int (ct header);
             current_part = shrink_part ct available_tokens remaining remaining;
             chunk = format_file_section (prefix @ ''_'' @ filename) current_part;
             remaining' = drop (length current_part) remaining;
             remaining'' = (if length remaining' = length line then drop 1 remaining'
                            else remaining')
         in chunk # split_loop ct line filename token_limit remaining'' (part_number + 1)))"
  by pat_completeness auto
termination
proof (relation "measure (\<lambda>(ct, line, filename, token_limit, remaining, n). length remaining)",
    goal_cases)
  case 1
  show ?case by simp
next
  case (2 ct line filename token_limit remaining part_number prefix header available_tokens
      current_part chunk remaining' remaining'')
  then have "current_part \<noteq> []" by (simp add: shrink_part_nonempty)
  with 2 show ?case by (auto split: if_splits)
qed

declare split_loop.simps [simp del]

definition split_long_line :: "tokenizer \<Rightarrow> string \<Rightarrow> string \<Rightarrow> nat \<Rightarrow> int \<Rightarrow> string list" where
  "split_long_line ct line filename part_number token_limit =
     split_loop ct line filename token_limit line part_number"

section \<open>The chunker\<close>

text \<open>
  The mutable state of \<^verbatim>\<open>chunk_content\<close>: the output list and the accumulator that
  \<^verbatim>\<open>flush_current_chunk\<close> closes over.
\<close>

record chunker =
  chunks :: "string list"
  current_chunk :: string
  current_chunk_tokens :: nat

text \<open>The three loop variables of a file that is emitted in numbered parts.\<close>

record part_acc =
  part_number :: nat
  part_lines :: "string list"
  current_part_tokens :: nat

text \<open>\<^verbatim>\<open>flush_current_chunk\<close> (lines 221 to 226).\<close>

definition flush_current_chunk :: "chunker \<Rightarrow> chunker" where
  "flush_current_chunk st =
     (if strip (current_chunk st) \<noteq> []
      then st\<lparr>chunks := chunks st @ [strip (current_chunk st)],
              current_chunk := [], current_chunk_tokens := 0\<rparr>
      else st)"

text \<open>
  \<^verbatim>\<open>flush_current_chunk()\<close> followed by
  \<^verbatim>\<open>chunks.append(format_file_section(f"{part_number:03d}_{filename}", body))\<close>,
  the pair of statements by which every numbered part is emitted.
\<close>

definition append_part :: "string \<Rightarrow> nat \<Rightarrow> string \<Rightarrow> chunker \<Rightarrow> chunker" where
  "append_part filename n body st =
     (let st' = flush_current_chunk st
      in st'\<lparr>chunks := chunks st' @ [format_file_section (part_name n filename) body]\<rparr>)"

text \<open>
  Adding one line that fits beside the part header on its own (lines 276 to 292, and
  again lines 328 to 344).
\<close>

definition add_line ::
  "int \<Rightarrow> string \<Rightarrow> nat \<Rightarrow> nat \<Rightarrow> string \<Rightarrow> chunker \<times> part_acc \<Rightarrow> chunker \<times> part_acc" where
  "add_line token_limit filename header_tokens line_tokens line s =
     (case s of (st, pa) \<Rightarrow>
        if int (current_part_tokens pa + line_tokens + header_tokens) \<le> token_limit then
          (st, pa\<lparr>part_lines := part_lines pa @ [line],
                  current_part_tokens := current_part_tokens pa + line_tokens\<rparr>)
        else if part_lines pa \<noteq> [] then
          (append_part filename (part_number pa) (join_lines (part_lines pa)) st,
           pa\<lparr>part_number := part_number pa + 1, part_lines := [line],
              current_part_tokens := line_tokens\<rparr>)
        else
          (append_part filename (part_number pa) line st,
           pa\<lparr>part_number := part_number pa + 1\<rparr>))"

text \<open>The body of the loop over the lines of a file that has a long line (lines 253 to 292).\<close>

definition long_line_step ::
  "tokenizer \<Rightarrow> int \<Rightarrow> string \<Rightarrow> chunker \<times> part_acc \<Rightarrow> string \<Rightarrow> chunker \<times> part_acc" where
  "long_line_step ct token_limit filename s line =
     (case s of (st, pa) \<Rightarrow>
        (let header = format_file_section (part_name (part_number pa) filename) [];
             header_tokens = ct header;
             line_tokens = ct line
         in if int line_tokens > token_limit - int header_tokens then
              (let (st1, pa1) =
                     (if part_lines pa \<noteq> [] then
                        (append_part filename (part_number pa) (join_lines (part_lines pa)) st,
                         pa\<lparr>part_number := part_number pa + 1, part_lines := [],
                            current_part_tokens := 0\<rparr>)
                      else (st, pa));
                   line_chunks = split_long_line ct line filename (part_number pa1) token_limit
               in (st1\<lparr>chunks := chunks st1 @ line_chunks\<rparr>,
                   pa1\<lparr>part_number := part_number pa1 + length line_chunks\<rparr>))
            else add_line token_limit filename header_tokens line_tokens line (st, pa)))"

text \<open>The body of the loop over the lines of a file with no long line (lines 323 to 344).\<close>

definition short_line_step ::
  "tokenizer \<Rightarrow> int \<Rightarrow> string \<Rightarrow> chunker \<times> part_acc \<Rightarrow> string \<Rightarrow> chunker \<times> part_acc" where
  "short_line_step ct token_limit filename s line =
     (case s of (st, pa) \<Rightarrow>
        (let header = format_file_section (part_name (part_number pa) filename) [];
             header_tokens = ct header;
             line_tokens = ct line
         in add_line token_limit filename header_tokens line_tokens line (st, pa)))"

text \<open>"Flush any remaining lines" (lines 295 to 298 and 347 to 350).\<close>

definition finish_parts :: "string \<Rightarrow> chunker \<times> part_acc \<Rightarrow> chunker" where
  "finish_parts filename s =
     (case s of (st, pa) \<Rightarrow>
        if part_lines pa \<noteq> []
        then append_part filename (part_number pa) (join_lines (part_lines pa)) st
        else st)"

definition first_part :: part_acc where
  "first_part = \<lparr>part_number = 1, part_lines = [], current_part_tokens = 0\<rparr>"

text \<open>The check of lines 234 to 244: does some line exceed what the plain header leaves.\<close>

definition has_long_lines :: "tokenizer \<Rightarrow> int \<Rightarrow> string \<Rightarrow> string list \<Rightarrow> bool" where
  "has_long_lines ct token_limit filename lines =
     list_ex (\<lambda>line. int (ct line) > token_limit - int (ct (format_file_section filename [])))
       lines"

text \<open>The body of the loop over the files (lines 230 to 350).\<close>

definition process_file :: "tokenizer \<Rightarrow> int \<Rightarrow> chunker \<Rightarrow> string \<Rightarrow> string \<Rightarrow> chunker" where
  "process_file ct token_limit st filename content =
     (let lines = split_lines content
      in if has_long_lines ct token_limit filename lines then
           finish_parts filename
             (foldl (long_line_step ct token_limit filename) (st, first_part) lines)
         else
           (let full_section = format_file_section filename content;
                section_tokens = ct full_section
            in if int section_tokens \<le> token_limit then
                 (if current_chunk st \<noteq> [] then
                    (let candidate = current_chunk st @ [newline, newline] @ full_section;
                         candidate_tokens = ct candidate
                     in if int candidate_tokens \<le> token_limit
                        then st\<lparr>current_chunk := candidate,
                                current_chunk_tokens := candidate_tokens\<rparr>
                        else (flush_current_chunk st)
                               \<lparr>current_chunk := full_section,
                                current_chunk_tokens := section_tokens\<rparr>)
                  else st\<lparr>current_chunk := full_section,
                          current_chunk_tokens := section_tokens\<rparr>)
               else
                 finish_parts filename
                   (foldl (short_line_step ct token_limit filename) (st, first_part) lines)))"

text \<open>
  A Python \<^verbatim>\<open>Dict[str, str]\<close> is given by an association list; the dictionary it
  denotes is \<^term>\<open>map_of\<close> of it, and \<^verbatim>\<open>sorted(content_by_file.keys())\<close> is the sorted
  list of its distinct keys (strings compare lexicographically by code point).
\<close>

definition sorted_keys :: "(string \<times> string) list \<Rightarrow> string list" where
  "sorted_keys content_by_file = sort (remdups (map fst content_by_file))"

definition chunk_files ::
  "tokenizer \<Rightarrow> int \<Rightarrow> (string \<times> string) list \<Rightarrow> chunker \<Rightarrow> string list \<Rightarrow> chunker" where
  "chunk_files ct token_limit content_by_file st filenames =
     foldl (\<lambda>st filename.
              (case map_of content_by_file filename of
                 Some content \<Rightarrow> process_file ct token_limit st filename content
               | None \<Rightarrow> st))
       st filenames"

text \<open>\<^verbatim>\<open>chunk_content\<close> (lines 208 to 353).\<close>

definition chunk_content :: "tokenizer \<Rightarrow> (string \<times> string) list \<Rightarrow> int \<Rightarrow> string list" where
  "chunk_content ct content_by_file token_limit =
     chunks (flush_current_chunk
       (chunk_files ct token_limit content_by_file
          \<lparr>chunks = [], current_chunk = [], current_chunk_tokens = 0\<rparr>
          (sorted_keys content_by_file)))"

section \<open>The chunker over a token counter that raises\<close>


















section \<open>Files: binary detection, the file filter, concatenation\<close>

type_synonym byte = "8 word"

text \<open>
  What \<^verbatim>\<open>pathlib\<close>, \<^verbatim>\<open>mimetypes\<close>, the codec and the file system answer.  Paths are
  values of a type \<open>'p\<close>; each field is the library call named beside it.
\<close>

record 'p filesystem =
  path_str :: "'p \<Rightarrow> string"  \<comment> \<open>\<^verbatim>\<open>str(path)\<close>\<close>
  joinpath :: "'p \<Rightarrow> string \<Rightarrow> 'p"  \<comment> \<open>\<^verbatim>\<open>path / name\<close>\<close>
  path_exists :: "'p \<Rightarrow> bool"  \<comment> \<open>\<^verbatim>\<open>path.exists()\<close>\<close>
  is_file :: "'p \<Rightarrow> bool"  \<comment> \<open>\<^verbatim>\<open>path.is_file()\<close>\<close>
  rglob_all :: "'p \<Rightarrow> 'p list"  \<comment> \<open>\<^verbatim>\<open>path.rglob('*')\<close>\<close>
  path_match :: "'p \<Rightarrow> string \<Rightarrow> error + bool"
    \<comment> \<open>\<^verbatim>\<open>path.match(pattern)\<close>, a \<^verbatim>\<open>ValueError\<close> for an empty pattern\<close>
  guess_type :: "string \<Rightarrow> string option"  \<comment> \<open>\<^verbatim>\<open>mimetypes.guess_type(s)[0]\<close>\<close>
  open_rb :: "'p \<Rightarrow> error + byte list"  \<comment> \<open>the bytes of the file, or the exception\<close>
  relative_to :: "'p \<Rightarrow> 'p \<Rightarrow> error + 'p"  \<comment> \<open>\<^verbatim>\<open>path.relative_to(base)\<close>\<close>
  decode :: "byte list \<Rightarrow> error + string"
    \<comment> \<open>the bytes decoded in the default encoding, or \<^verbatim>\<open>UnicodeDecodeError\<close>\<close>

text \<open>
  \<^verbatim>\<open>is_binary_file\<close> (file_operations.py, lines 76 to 105).  The test
  \<^verbatim>\<open>if mime_type and not mime_type.startswith('text/')\<close> is false for \<^verbatim>\<open>None\<close> and
  for the empty string; every exception inside the \<^verbatim>\<open>try\<close> gives \<^verbatim>\<open>True\<close>.
\<close>

definition is_binary_file :: "'p filesystem \<Rightarrow> 'p \<Rightarrow> bool" where
  "is_binary_file fs file_path =
     (let mime_type = guess_type fs (path_str fs file_path)
      in if (case mime_type of None \<Rightarrow> False
             | Some m \<Rightarrow> m \<noteq> [] \<and> \<not> startswith m ''text/'')
         then True
         else (case open_rb fs file_path of
                 Inl e \<Rightarrow> True
               | Inr bytes \<Rightarrow> (0 :: byte) \<in> set (take 1024 bytes)))"

text \<open>
  \<^verbatim>\<open>any(file.match(pattern) for pattern in ignore_patterns)\<close> (line 43): the patterns are
  tried in order up to the first match, and an exception of \<^verbatim>\<open>match\<close> leaves the call.
\<close>

fun match_any :: "'p filesystem \<Rightarrow> 'p \<Rightarrow> string list \<Rightarrow> error + bool" where
  "match_any fs file [] = Inr False"
| "match_any fs file (pattern # patterns) =
     (case path_match fs file pattern of
        Inl e \<Rightarrow> Inl e
      | Inr matched \<Rightarrow> if matched then Inr True else match_any fs file patterns)"

text \<open>The loop of \<^verbatim>\<open>glob_files\<close> over \<^verbatim>\<open>target_path.rglob('*')\<close> (lines 38 to 50).\<close>

fun glob_loop ::
  "'p filesystem \<Rightarrow> string list \<Rightarrow> 'p list \<Rightarrow> 'p list \<Rightarrow> error + 'p list" where
  "glob_loop fs ignore_patterns files [] = Inr files"
| "glob_loop fs ignore_patterns files (file # rest) =
     (if \<not> is_file fs file then glob_loop fs ignore_patterns files rest
      else
        (case match_any fs file ignore_patterns of
           Inl e \<Rightarrow> Inl e
         | Inr ignored \<Rightarrow>
             if ignored then glob_loop fs ignore_patterns files rest
             else if is_binary_file fs file then glob_loop fs ignore_patterns files rest
             else glob_loop fs ignore_patterns (files @ [file]) rest))"

text \<open>\<^verbatim>\<open>glob_files\<close> (parser.py, lines 13 to 52).\<close>

definition glob_files ::
  "'p filesystem \<Rightarrow> 'p \<Rightarrow> string \<Rightarrow> string list \<Rightarrow> bool \<Rightarrow> error + 'p list" where
  "glob_files fs base_path target_dir ignore_patterns allow_missing =
     (let target_path = joinpath fs base_path (lstrip_slash target_dir)
      in if \<not> path_exists fs target_path then
           (if allow_missing then Inr []
            else Inl (ValueError (''Target directory not found: '' @ path_str fs target_path)))
         else glob_loop fs ignore_patterns [] (rglob_all fs target_path))"

text \<open>
  The text layer of \<^verbatim>\<open>open\<close> in its default mode of universal newlines: on reading,
  \<^verbatim>\<open>\r\n\<close> and a lone \<^verbatim>\<open>\r\<close> become \<^verbatim>\<open>\n\<close>.
\<close>

definition carriage_return :: char where
  "carriage_return = CHR 0x0D"

fun universal_newlines :: "string \<Rightarrow> string" where
  "universal_newlines [] = []"
| "universal_newlines [c] = (if c = carriage_return then [newline] else [c])"
| "universal_newlines (c # d # ds) =
     (if c = carriage_return \<and> d = newline then newline # universal_newlines ds
      else if c = carriage_return then newline # universal_newlines (d # ds)
      else c # universal_newlines (d # ds))"

text \<open>
  \<^verbatim>\<open>file.read_text()\<close>: the file is opened, its bytes are decoded and the newlines
  translated.
\<close>

definition read_text :: "'p filesystem \<Rightarrow> 'p \<Rightarrow> error + string" where
  "read_text fs file_path =
     (case open_rb fs file_path of
        Inl e \<Rightarrow> Inl e
      | Inr bytes \<Rightarrow>
          (case decode fs bytes of
             Inl e \<Rightarrow> Inl e
           | Inr text \<Rightarrow> Inr (universal_newlines text)))"

text \<open>
  The loop of \<^verbatim>\<open>concatenate_files\<close> over the files (lines 132 to 151), on the list
  \<^verbatim>\<open>result\<close> of output lines.  Only \<^verbatim>\<open>UnicodeDecodeError\<close> is caught; any other
  exception of \<^verbatim>\<open>relative_to\<close> or \<^verbatim>\<open>read_text\<close> leaves the function.
\<close>

fun concat_loop :: "'p filesystem \<Rightarrow> 'p \<Rightarrow> string list \<Rightarrow> 'p list \<Rightarrow> error + string list" where
  "concat_loop fs base_path result [] = Inr result"
| "concat_loop fs base_path result (file # files) =
     (if is_binary_file fs file then concat_loop fs base_path result files
      else
        (case relative_to fs file base_path of
           Inl e \<Rightarrow>
             (if e = UnicodeDecodeError then concat_loop fs base_path result files else Inl e)
         | Inr rel \<Rightarrow>
             (let relative_path = path_str fs rel
              in case read_text fs file of
                   Inl e \<Rightarrow>
                     (if e = UnicodeDecodeError then concat_loop fs base_path result files
                      else Inl e)
                 | Inr content \<Rightarrow>
                     (let result1 = (if length result > 0 then result @ [[]] else result)
                      in concat_loop fs base_path
                           (result1 @ [''File: '' @ relative_path, content]) files))))"

text \<open>
  The metadata lines (lines 118 to 129): the dictionary keeps its insertion order, and
  \<open>now\<close> is the string \<^verbatim>\<open>datetime.now().isoformat()\<close>.
\<close>

definition metadata_lines :: "string \<Rightarrow> nat \<Rightarrow> string \<Rightarrow> string \<Rightarrow> string list" where
  "metadata_lines now file_count repository_url target_dir =
     ''# Metadata'' #
     map (\<lambda>(key, value). key @ '': '' @ value)
       [(''total_tokens'', str_nat 0),
        (''file_count'', str_nat file_count),
        (''repository'', repository_url),
        (''target_directory'', target_dir),
        (''generated'', now)]"

text \<open>\<^verbatim>\<open>concatenate_files\<close> (parser.py, lines 96 to 153).\<close>

definition concatenate_files ::
  "'p filesystem \<Rightarrow> string \<Rightarrow> 'p list \<Rightarrow> 'p \<Rightarrow> string \<Rightarrow> string \<Rightarrow> error + string" where
  "concatenate_files fs now files base_path repository_url target_dir =
     (if files = [] then Inr []
      else
        (case concat_loop fs base_path
                (metadata_lines now (length files) repository_url target_dir) files of
           Inl e \<Rightarrow> Inl e
         | Inr result \<Rightarrow> Inr (join_lines result)))"

text \<open>
  A small file system for evaluation: paths are strings, bytes decode one to one into
  characters, \<^verbatim>\<open>/repo/a.txt\<close> is a text file holding \<^verbatim>\<open>hello\<close>, \<^verbatim>\<open>/repo/b.txt\<close>
  is a file whose third byte is null, and nothing else exists but the directory
  \<^verbatim>\<open>/repo\<close>.
\<close>

definition demo_fs :: "string filesystem" where
  "demo_fs =
     \<lparr>path_str = (\<lambda>p. p),
      joinpath = (\<lambda>p name. if name = [] then p else p @ ''/'' @ name),
      path_exists = (\<lambda>p. p \<in> set [''/repo'', ''/repo/a.txt'', ''/repo/b.txt'']),
      is_file = (\<lambda>p. p \<in> set [''/repo/a.txt'', ''/repo/b.txt'']),
      rglob_all = (\<lambda>p. if p = ''/repo'' then [''/repo/a.txt'', ''/repo/b.txt''] else []),
      path_match = (\<lambda>p pattern. if pattern = [] then Inl (ValueError ''empty pattern'')
                                  else Inr False),
      guess_type = (\<lambda>s. if s \<in> set [''/repo/a.txt'', ''/repo/b.txt''] then Some ''text/plain''
                          else None),
      open_rb = (\<lambda>p. if p = ''/repo/a.txt'' then Inr [104, 101, 108, 108, 111]
                       else if p = ''/repo/b.txt'' then Inr [104, 105, 0, 33]
                       else Inl (FileNotFoundError p)),
      relative_to = (\<lambda>p base. if take (length base + 1) p = base @ ''/''
                               then Inr (drop (length base + 1) p)
                               else Inl (ValueError p)),
      decode = (\<lambda>bytes. Inr (map (\<lambda>b. char_of (unat b)) bytes))\<rparr>"



section \<open>Binary detection and exclusion\<close>






section \<open>The file filter on a missing target directory\<close>

text \<open>
  Claim C6, as stated, at a missing target directory with \<^verbatim>\<open>allow_missing\<close> false: the
  exception that \<^verbatim>\<open>glob_files\<close> raises is a \<^verbatim>\<open>ValueError\<close>; it is no
  \<^verbatim>\<open>NotFoundError\<close>, whatever the message.
\<close>

theorem glob_files_missing_counterexample:
  "glob_files demo_fs ''/repo'' ''/missing'' [] False
     = Inl (ValueError ''Target directory not found: /repo/missing'')
   \<and> glob_files demo_fs ''/repo'' ''/missing'' [] False \<notin> range (\<lambda>msg. Inl (NotFoundError msg))"
proof -
  have e: "glob_files demo_fs ''/repo'' ''/missing'' [] False
     = Inl (ValueError ''Target directory not found: /repo/missing'')"
    by code_simp
  show ?thesis unfolding e by auto
qed

text \<open>
  Claim C6, amended.  For every base path, ignore-pattern list and target subdirectory that
  does not exist, \<^verbatim>\<open>glob_files\<close> returns the empty list when \<^verbatim>\<open>allow_missing\<close> is
  true, and otherwise fails with the \<^verbatim>\<open>ValueError\<close> whose message is
  \<^verbatim>\<open>Target directory not found: \<close> followed by the target path.
\<close>

theorem glob_files_missing:
  assumes "\<not> path_exists fs (joinpath fs base_path (lstrip_slash target_dir))"
  shows "glob_files fs base_path target_dir ignore_patterns allow_missing =
           (if allow_missing then Inr []
            else Inl (ValueError (''Target directory not found: ''
                        @ path_str fs (joinpath fs base_path (lstrip_slash target_dir)))))"
  using assms by (simp add: glob_files_def Let_def)

theorem glob_files_missing_witness:
  "\<not> path_exists demo_fs (joinpath demo_fs ''/repo'' (lstrip_slash ''/missing''))
   \<and> glob_files demo_fs ''/repo'' ''/missing'' [''*.pyc''] True = Inr []
   \<and> glob_files demo_fs ''/repo'' ''/missing'' [''*.pyc''] False
       = Inl (ValueError ''Target directory not found: /repo/missing'')"
proof -
  have h: "\<not> path_exists demo_fs (joinpath demo_fs ''/repo'' (lstrip_slash ''/missing''))"
    by code_simp
  have s: "path_str demo_fs (joinpath demo_fs ''/repo'' (lstrip_slash ''/missing'')) = ''/repo/missing''"
    by code_simp
  from glob_files_missing [OF h, of "[''*.pyc'']" True]
       glob_files_missing [OF h, of "[''*.pyc'']" False] h s
  show ?thesis by simp
qed

section \<open>Concatenation\<close>

lemma str_nat_0: "str_nat 0 = ''0''"
  by code_simp

lemma join_lines_append:
  "xs \<noteq> [] \<Longrightarrow> ys \<noteq> [] \<Longrightarrow> join_lines (xs @ ys) = join_lines xs @ newline # join_lines ys"
  by (induction xs rule: join_lines.induct) (auto simp: neq_Nil_conv)

lemma concat_loop_extends:
  "result \<noteq> [] \<Longrightarrow> concat_loop fs base result files = Inr r \<Longrightarrow>
   \<exists>ext. r = result @ ext \<and> (ext = [] \<or> (\<exists>h rest. ext = [] # (''File: '' @ h) # rest))"
proof (induction files arbitrary: result)
  case Nil
  then show ?case by simp
next
  case (Cons f files)
  from Cons.prems consider
    (skip) "concat_loop fs base result files = Inr r"
  | (step) rel content where
      "concat_loop fs base (result @ [[], ''File: '' @ path_str fs rel, content]) files = Inr r"
    by (auto simp: Let_def split: if_splits sum.splits)
  then show ?case
  proof cases
    case skip
    with Cons show ?thesis by simp
  next
    case step
    from Cons.IH [OF _ step]
    obtain ext where "r = (result @ [[], ''File: '' @ path_str fs rel, content]) @ ext"
      by auto
    then show ?thesis by auto
  qed
qed

text \<open>
  Claim C7, as stated, at the empty list of files: \<^verbatim>\<open>concatenate_files\<close> returns the
  empty string, which does not begin with \<^verbatim>\<open># Metadata\<close>.
\<close>

theorem concatenate_files_empty_counterexample:
  "concatenate_files demo_fs ''2024-01-01T00:00:00'' [] ''/repo'' ''https://github.com/test/repo'' ''/test/dir''
     = Inr []
   \<and> \<not> startswith [] ''# Metadata''"
  by (simp add: concatenate_files_def startswith_def)

text \<open>
  Claim C7, amended.  Whenever \<^verbatim>\<open>concatenate_files\<close> returns a string: for the empty
  list of files it is the empty string (line 114); for a non-empty list it begins with the
  line \<^verbatim>\<open># Metadata\<close> followed by exactly the five lines \<^verbatim>\<open>total_tokens: 0\<close>,
  \<^verbatim>\<open>file_count: n\<close> with \<open>n\<close> the number of input files, \<^verbatim>\<open>repository: ...\<close>,
  \<^verbatim>\<open>target_directory: ...\<close> and \<^verbatim>\<open>generated: ...\<close>, in this order; what follows
  is nothing, or a blank line and the \<^verbatim>\<open>File: \<close> header of the first file section,
  so there is no sixth key-value line.
\<close>

theorem concatenate_files_metadata:
  assumes "concatenate_files fs now files base_path repository_url target_dir = Inr out"
  shows "if files = [] then out = []
         else (\<exists>rest. out = join_lines [''# Metadata'', ''total_tokens: 0'',
                                  ''file_count: '' @ str_nat (length files),
                                  ''repository: '' @ repository_url,
                                  ''target_directory: '' @ target_dir,
                                  ''generated: '' @ now] @ rest
                 \<and> (rest = [] \<or> startswith rest (newline # newline # ''File: '')))"
proof (cases "files = []")
  case True
  with assms show ?thesis by (simp add: concatenate_files_def)
next
  case False
  let ?m = "metadata_lines now (length files) repository_url target_dir"
  have m: "?m = [''# Metadata'', ''total_tokens: 0'',
                  ''file_count: '' @ str_nat (length files),
                  ''repository: '' @ repository_url,
                  ''target_directory: '' @ target_dir,
                  ''generated: '' @ now]"
    by (simp add: metadata_lines_def str_nat_0)
  from assms False obtain result where
    r: "concat_loop fs base_path ?m files = Inr result" and o: "out = join_lines result"
    by (auto simp: concatenate_files_def split: sum.splits)
  have "?m \<noteq> []" by (simp add: metadata_lines_def)
  from concat_loop_extends [OF this r] obtain ext where
    e: "result = ?m @ ext" "ext = [] \<or> (\<exists>h rest. ext = [] # (''File: '' @ h) # rest)"
    by blast
  show ?thesis
  proof (cases "ext = []")
    case True
    with e o m False show ?thesis by auto
  next
    case ne: False
    with e obtain h rest where x: "ext = [] # (''File: '' @ h) # rest" by blast
    have "join_lines ext = newline # ''File: '' @ join_lines (h # rest)"
      unfolding x by (cases rest) auto
    with join_lines_append [OF \<open>?m \<noteq> []\<close> ne] e o
    have "out = join_lines ?m @ newline # newline # ''File: '' @ join_lines (h # rest)"
      by simp
    then have "out = join_lines ?m @ (newline # newline # ''File: '' @ join_lines (h # rest))
               \<and> startswith (newline # newline # ''File: '' @ join_lines (h # rest))
                    (newline # newline # ''File: '')"
      by (simp add: startswith_def)
    with False m show ?thesis by (simp only: if_False) metis
  qed
qed

theorem concatenate_files_metadata_witness:
  "concatenate_files demo_fs ''2024-01-01T00:00:00'' [''/repo/a.txt'', ''/repo/b.txt'', ''/repo/a.txt'']
      ''/repo'' ''https://github.com/test/repo'' ''/test/dir''
     = Inr ''# Metadata\<newline>total_tokens: 0\<newline>file_count: 3\<newline>repository: https://github.com/test/repo\<newline>target_directory: /test/dir\<newline>generated: 2024-01-01T00:00:00\<newline>\<newline>File: a.txt\<newline>hello\<newline>\<newline>File: a.txt\<newline>hello''
   \<and> (\<exists>rest. ''# Metadata\<newline>total_tokens: 0\<newline>file_count: 3\<newline>repository: https://github.com/test/repo\<newline>target_directory: /test/dir\<newline>generated: 2024-01-01T00:00:00\<newline>\<newline>File: a.txt\<newline>hello\<newline>\<newline>File: a.txt\<newline>hello''
        = join_lines [''# Metadata'', ''total_tokens: 0'',
             ''file_count: '' @ str_nat (length [''/repo/a.txt'', ''/repo/b.txt'', ''/repo/a.txt'']),
             ''repository: '' @ ''https://github.com/test/repo'',
             ''target_directory: '' @ ''/test/dir'',
             ''generated: '' @ ''2024-01-01T00:00:00''] @ rest
        \<and> (rest = [] \<or> startswith rest (newline # newline # ''File: '')))"
proof -
  have e: "concatenate_files demo_fs ''2024-01-01T00:00:00'' [''/repo/a.txt'', ''/repo/b.txt'', ''/repo/a.txt'']
      ''/repo'' ''https://github.com/test/repo'' ''/test/dir''
     = Inr ''# Metadata\<newline>total_tokens: 0\<newline>file_count: 3\<newline>repository: https://github.com/test/repo\<newline>target_directory: /test/dir\<newline>generated: 2024-01-01T00:00:00\<newline>\<newline>File: a.txt\<newline>hello\<newline>\<newline>File: a.txt\<newline>hello''"
    by code_simp
  from concatenate_files_metadata [OF e] e show ?thesis
    by (simp only: list.distinct if_False simp_thms)
qed



section \<open>The chunker on concrete inputs\<close>

text \<open>
  Claim C2, evaluated at two files \<^verbatim>\<open>a\<close> and \<^verbatim>\<open>b\<close> with a budget of 12 tokens:
  \<^verbatim>\<open>a\<close> fits and waits in the accumulator; the only line of \<^verbatim>\<open>b\<close> is too long, and
  its fragments are appended to the output with no flush before them (lines 261 to 272 flush
  only when \<^verbatim>\<open>part_lines\<close> is not empty).  The chunk of \<^verbatim>\<open>a\<close> is emitted by the last
  flush, after every chunk of \<^verbatim>\<open>b\<close>.
\<close>

theorem chunk_order_broken:
  "chunk_content char_tokens [(''a'', ''x''), (''b'', ''yyyyyyyy'')] 12 =
     [format_file_section ''001_b'' ''yyyy'', format_file_section ''002_b'' ''yy'',
      format_file_section ''003_b'' ''y'', format_file_section ''004_b'' ''y'',
      format_file_section ''a'' ''x'']"
  by code_simp

lemma split_long_line_empty: "split_long_line ct [] filename n token_limit = []"
  by (simp add: split_long_line_def split_loop.simps)

text \<open>
  Claim C8, at a budget that the header of the file alone exceeds: for every token counter
  and every file name, when both \<^verbatim>\<open>File: name\<close> and \<^verbatim>\<open>File: 001_name\<close> need more
  tokens than the budget, the mapping of that one name to the empty string yields no chunk
  at all.  The empty line counts as a long line, and \<^verbatim>\<open>split_long_line\<close> returns the
  empty list for it.
\<close>

theorem empty_file_dropped:
  assumes "int (ct (format_file_section filename [])) > token_limit"
    and "int (ct (format_file_section (part_name 1 filename) [])) > token_limit"
  shows "chunk_content ct [(filename, [])] token_limit = []"
proof -
  have k: "sorted_keys [(filename, [])] = [filename]"
    by (simp add: sorted_keys_def)
  have l: "has_long_lines ct token_limit filename [[]]"
    using assms(1) by (simp add: has_long_lines_def)
  have s: "long_line_step ct token_limit filename
             (\<lparr>chunks = [], current_chunk = [], current_chunk_tokens = 0\<rparr>, first_part) []
           = (\<lparr>chunks = [], current_chunk = [], current_chunk_tokens = 0\<rparr>, first_part)"
    using assms(2)
    by (simp add: long_line_step_def first_part_def Let_def split_long_line_empty)
  have p: "process_file ct token_limit
             \<lparr>chunks = [], current_chunk = [], current_chunk_tokens = 0\<rparr> filename []
           = \<lparr>chunks = [], current_chunk = [], current_chunk_tokens = 0\<rparr>"
    using l by (simp add: process_file_def s finish_parts_def) (simp add: first_part_def)
  show ?thesis
    by (simp add: chunk_content_def chunk_files_def k p flush_current_chunk_def strip_def
        lstrip_def rstrip_def)
qed

theorem empty_file_dropped_witness:
  "int (char_tokens (format_file_section ''empty.py'' [])) > 1
   \<and> int (char_tokens (format_file_section (part_name 1 ''empty.py'') [])) > 1
   \<and> chunk_content char_tokens [(''empty.py'', [])] 1 = []"
proof -
  have a: "int (char_tokens (format_file_section ''empty.py'' [])) > 1"
    by (simp add: char_tokens_def format_file_section_def)
  have b: "int (char_tokens (format_file_section (part_name 1 ''empty.py'') [])) > 1"
    by (simp add: char_tokens_def format_file_section_def)
  from empty_file_dropped [OF a b] a b show ?thesis by simp
qed
text \<open>
  Claim C1, evaluated at a file of six one-token lines with a budget of 17 tokens, one
  token per character.  The first chunk is the part of the first five lines: the chunker
  counts 12 tokens for the header \<^verbatim>\<open>File: 001_f\<close> and one for each line, 17 in all,
  and does not count the four newlines that join the lines.  The chunk has 21 tokens.  It
  is no fragment of a split line, and no line of it is longer than one character.
\<close>

theorem joined_lines_exceed_budget:
  "chunk_content char_tokens [(''f'', ''a\<newline>b\<newline>c\<newline>d\<newline>e\<newline>f'')] 17
     = [format_file_section ''001_f'' ''a\<newline>b\<newline>c\<newline>d\<newline>e'', format_file_section ''002_f'' ''f'']
   \<and> char_tokens (format_file_section ''001_f'' ''a\<newline>b\<newline>c\<newline>d\<newline>e'') = 21
   \<and> char_tokens (format_file_section ''001_f'' []) + char_tokens ''a'' + char_tokens ''b''
       + char_tokens ''c'' + char_tokens ''d'' + char_tokens ''e'' = 17"
  by code_simp

text \<open>
  Claim C10, evaluated at a file whose fourth line is empty, with a budget of 17 tokens.
  The first numbered part holds the first four lines; it is appended as it is (line 336),
  with no trimming, and ends with a newline.
\<close>

theorem part_ends_with_newline:
  "chunk_content char_tokens [(''f'', ''a\<newline>b\<newline>c\<newline>\<newline>zzzzz'')] 17
     = [format_file_section ''001_f'' ''a\<newline>b\<newline>c\<newline>'', format_file_section ''002_f'' ''zzzzz'']
   \<and> last (format_file_section ''001_f'' ''a\<newline>b\<newline>c\<newline>'') = newline
   \<and> is_space newline"
  by code_simp
section \<open>Facts about the string operations\<close>

lemma startswith_iff: "startswith s p \<longleftrightarrow> (\<exists>r. s = p @ r)"
proof
  assume "startswith s p"
  then have "s = p @ drop (length p) s"
    unfolding startswith_def by (metis append_take_drop_id)
  then show "\<exists>r. s = p @ r" ..
next
  assume "\<exists>r. s = p @ r"
  then show "startswith s p" by (auto simp: startswith_def)
qed





lemma rstrip_last: "rstrip s \<noteq> [] \<Longrightarrow> \<not> is_space (last (rstrip s))"
proof -
  assume a: "rstrip s \<noteq> []"
  then have n: "dropWhile is_space (rev s) \<noteq> []" by (simp add: rstrip_def)
  then have "\<not> is_space (hd (dropWhile is_space (rev s)))" by (rule hd_dropWhile)
  with n show ?thesis by (simp add: rstrip_def last_rev)
qed

lemma strip_last: "strip s \<noteq> [] \<Longrightarrow> \<not> is_space (last (strip s))"
  unfolding strip_def by (rule rstrip_last)


lemma startswith_File_weaken: "startswith s ''File: '' \<Longrightarrow> startswith s ''File:''"
proof -
  assume "startswith s ''File: ''"
  then obtain r where "s = ''File: '' @ r" unfolding startswith_iff by blast
  then have "s = ''File:'' @ (CHR '' '' # r)" by simp
  then show ?thesis unfolding startswith_iff by blast
qed

section \<open>What the binary search and the inner loop return\<close>

lemma bsearch_zero:
  "bsearch ct a s left right = 0 \<Longrightarrow> left = 0 \<and> (right \<le> 1 \<or> int (ct (take 1 s)) > a)"
proof (induction ct a s left right rule: bsearch.induct)
  case (1 ct a s left right)
  show ?case
  proof (cases "left + 1 < right")
    case False
    with "1.prems" show ?thesis by (subst (asm) bsearch.simps) auto
  next
    case True
    let ?mid = "(left + right) div 2"
    from True have m: "0 < ?mid" by auto
    show ?thesis
    proof (cases "int (ct (take ?mid s)) \<le> a")
      case fits: True
      with True "1.prems" have "bsearch ct a s ?mid right = 0"
        by (subst (asm) bsearch.simps) (simp add: Let_def)
      from "1.IH"(1) [OF True refl fits this] m show ?thesis by simp
    next
      case nofit: False
      with True "1.prems" have "bsearch ct a s left ?mid = 0"
        by (subst (asm) bsearch.simps) (simp add: Let_def)
      from "1.IH"(2) [OF True refl nofit this] have l: "left = 0" and
        d: "?mid \<le> 1 \<or> int (ct (take 1 s)) > a" by auto
      from d show ?thesis
      proof
        assume "?mid \<le> 1"
        with m have "?mid = 1" by simp
        with nofit l show ?thesis by simp
      next
        assume "int (ct (take 1 s)) > a"
        with l show ?thesis by simp
      qed
    qed
  qed
qed

lemma bsearch_fits:
  "bsearch ct a s left right = left \<or> int (ct (take (bsearch ct a s left right) s)) \<le> a"
proof (induction ct a s left right rule: bsearch.induct)
  case (1 ct a s left right)
  show ?case
  proof (cases "left + 1 < right")
    case False
    then show ?thesis by (subst bsearch.simps) simp
  next
    case True
    let ?mid = "(left + right) div 2"
    show ?thesis
    proof (cases "int (ct (take ?mid s)) \<le> a")
      case fits: True
      then have e: "bsearch ct a s left right = bsearch ct a s ?mid right"
        using True by (subst bsearch.simps) (simp add: Let_def)
      from "1.IH"(1) [OF True refl fits] fits show ?thesis unfolding e by auto
    next
      case nofit: False
      then have e: "bsearch ct a s left right = bsearch ct a s left ?mid"
        using True by (subst bsearch.simps) (simp add: Let_def)
      from "1.IH"(2) [OF True refl nofit] show ?thesis unfolding e by auto
    qed
  qed
qed

text \<open>What the inner loop returns for a non-empty candidate.\<close>

lemma shrink_part_cases:
  assumes "cp \<noteq> []"
  shows "(int (ct (shrink_part ct a rem cp)) \<le> a
           \<and> (\<exists>k>0. shrink_part ct a rem cp = take k cp))
         \<or> (shrink_part ct a rem cp = take (max 1 (length rem div 2)) rem
             \<and> int (ct (take 1 cp)) > a)"
proof (cases "int (ct cp) > a")
  case False
  then have "shrink_part ct a rem cp = cp" by (subst shrink_part.simps) simp
  moreover have "cp = take (length cp) cp" "0 < length cp" using assms by auto
  ultimately show ?thesis using False by (metis not_less)
next
  case over: True
  let ?left = "bsearch ct a cp 0 (length cp)"
  show ?thesis
  proof (cases "take ?left cp = []")
    case True
    then have r: "shrink_part ct a rem cp = take (max 1 (length rem div 2)) rem"
      using over by (subst shrink_part.simps) (simp add: Let_def)
    from True assms have "?left = 0" by simp
    from bsearch_zero [OF this] have "length cp \<le> 1 \<or> int (ct (take 1 cp)) > a" by simp
    moreover have "length cp \<le> 1 \<Longrightarrow> take 1 cp = cp" by simp
    ultimately have "int (ct (take 1 cp)) > a" using over by auto
    with r show ?thesis by simp
  next
    case False
    then have z: "?left \<noteq> 0" by auto
    with bsearch_fits [of ct a cp 0 "length cp"] have f: "int (ct (take ?left cp)) \<le> a" by auto
    have "shrink_part ct a rem cp = shrink_part ct a rem (take ?left cp)"
      using over False by (subst shrink_part.simps) (simp add: Let_def)
    also have "\<dots> = take ?left cp" using f by (subst shrink_part.simps) simp
    finally show ?thesis using f z by auto
  qed
qed
section \<open>The fragments of a split line\<close>

text \<open>
  The definitions of this section and the next ones describe the output; they are not
  part of the program.  The chunks of consecutive numbered parts of a file, from part
  number \<open>n\<close> on:
\<close>

definition numbered_parts :: "string \<Rightarrow> nat \<Rightarrow> string list \<Rightarrow> string list" where
  "numbered_parts filename n bodies =
     map2 (\<lambda>k body. format_file_section (part_name k filename) body)
       [n ..< n + length bodies] bodies"

lemma upt_shift: "[n ..< Suc (n + m)] = n # [Suc n ..< Suc (n + m)]"
  by (subst upt_conv_Cons) simp_all

lemma numbered_parts_Nil [simp]: "numbered_parts filename n [] = []"
  by (simp add: numbered_parts_def)

lemma numbered_parts_Cons [simp]:
  "numbered_parts filename n (f # fs)
     = format_file_section (part_name n filename) f # numbered_parts filename (n + 1) fs"
  by (simp add: numbered_parts_def upt_shift del: upt_Suc)

lemma length_numbered_parts [simp]: "length (numbered_parts filename n bodies) = length bodies"
  by (simp add: numbered_parts_def)

lemma numbered_parts_append:
  "numbered_parts filename n (bs @ cs)
     = numbered_parts filename n bs @ numbered_parts filename (n + length bs) cs"
  by (induction bs arbitrary: n) simp_all

lemma shrink_part_step:
  assumes "remaining \<noteq> []"
  shows "\<exists>k>0. shrink_part ct a remaining remaining = take k remaining"
proof -
  from shrink_part_cases [OF assms, of ct a remaining]
  show ?thesis
  proof
    assume "int (ct (shrink_part ct a remaining remaining)) \<le> a
           \<and> (\<exists>k>0. shrink_part ct a remaining remaining = take k remaining)"
    then show ?thesis by simp
  next
    let ?k = "max 1 (length remaining div 2)"
    assume "shrink_part ct a remaining remaining = take ?k remaining
                 \<and> int (ct (take 1 remaining)) > a"
    moreover have "0 < ?k" by simp
    ultimately show ?thesis by blast
  qed
qed

text \<open>
  A line is split into non-empty fragments that concatenate to it, one part each, numbered
  from \<open>n\<close> on.  The "safety check" of lines 201 to 203 never fires.
\<close>

lemma split_loop_shape:
  "length remaining \<le> length line \<Longrightarrow>
   \<exists>frags. split_loop ct line filename token_limit remaining n
              = numbered_parts filename n frags
          \<and> concat frags = remaining \<and> [] \<notin> set frags"
proof (induction "length remaining" arbitrary: remaining n rule: less_induct)
  case less
  show ?case
  proof (cases "remaining = []")
    case True
    have "split_loop ct line filename token_limit remaining n
            = numbered_parts filename n []"
      using True by (subst split_loop.simps) simp
    moreover have "concat [] = remaining" using True by simp
    ultimately show ?thesis by (intro exI [of _ "[]"]) simp
  next
    case False
    let ?a = "token_limit - int (ct (format_file_section (part_name n filename) []))"
    let ?cp = "shrink_part ct ?a remaining remaining"
    let ?rest = "drop (length ?cp) remaining"
    from shrink_part_step [OF False, of ct ?a] obtain k where
      k: "0 < k" "?cp = take k remaining"
      by blast
    from k False have ne: "?cp \<noteq> []" by auto
    have "take k remaining @ drop (length (take k remaining)) remaining = remaining"
      by (cases "k \<le> length remaining") (simp_all add: min_def)
    with k have split: "?cp @ ?rest = remaining" by simp
    from ne False have shorter: "length ?rest < length remaining" by simp
    with less.prems have nl: "length ?rest \<noteq> length line" by simp
    have step: "split_loop ct line filename token_limit remaining n
                  = format_file_section (part_name n filename) ?cp
                    # split_loop ct line filename token_limit ?rest (n + 1)"
      using False nl
      by (subst split_loop.simps) (simp add: Let_def part_name_def)
    from shorter less.prems have "length ?rest \<le> length line" by simp
    from less.hyps [OF shorter this, of "n + 1"] obtain frags where
      f: "split_loop ct line filename token_limit ?rest (n + 1)
            = numbered_parts filename (n + 1) frags"
         "concat frags = ?rest" "[] \<notin> set frags"
      by blast
    have "split_loop ct line filename token_limit remaining n
            = numbered_parts filename n (?cp # frags)"
      unfolding step f(1) by simp
    moreover have "concat (?cp # frags) = remaining"
      using f(2) split by simp
    moreover have "[] \<notin> set (?cp # frags)" using f(3) ne by auto
    ultimately show ?thesis by blast
  qed
qed

lemma split_long_line_shape:
  "\<exists>frags. split_long_line ct line filename n token_limit
              = numbered_parts filename n frags
          \<and> concat frags = line \<and> [] \<notin> set frags"
  unfolding split_long_line_def by (rule split_loop_shape) simp

section \<open>What a split file adds to the output\<close>

lemma split_lines_nonempty: "split_lines s \<noteq> []"
  by (induction s) (auto split: list.splits)

lemma join_lines_Cons_Cons: "join_lines ((c # l) # ls) = c # join_lines (l # ls)"
  by (cases ls) simp_all

lemma join_split_lines: "join_lines (split_lines s) = s"
proof (induction s)
  case Nil
  show ?case by simp
next
  case (Cons c cs)
  obtain l ls where s: "split_lines cs = l # ls"
    using split_lines_nonempty [of cs] by (cases "split_lines cs") auto
  show ?case
  proof (cases "c = newline")
    case True
    with Cons s show ?thesis by simp
  next
    case False
    with Cons s show ?thesis by (simp add: join_lines_Cons_Cons)
  qed
qed

text \<open>
  What a file emitted in numbered parts has added to the output since the state \<open>st0\<close>:
  its parts, and among them at most the one flush of the accumulator that \<open>st0\<close> held.
\<close>

definition interleaved :: "string \<Rightarrow> string \<Rightarrow> string list \<Rightarrow> string list \<Rightarrow> bool" where
  "interleaved acc0 acc new parts =
     ((new = parts \<and> acc = acc0)
      \<or> (\<exists>ps1 ps2. new = ps1 @ [strip acc0] @ ps2 \<and> parts = ps1 @ ps2 \<and> acc = []))"

definition emitted :: "chunker \<Rightarrow> string \<Rightarrow> chunker \<Rightarrow> string list \<Rightarrow> bool" where
  "emitted st0 filename st bodies =
     (\<exists>new. chunks st = chunks st0 @ new
        \<and> interleaved (current_chunk st0) (current_chunk st) new (numbered_parts filename 1 bodies))"

lemma emitted_refl: "emitted st0 filename st0 []"
  by (simp add: emitted_def interleaved_def)

lemma strip_Nil [simp]: "strip [] = []"
  by (simp add: strip_def lstrip_def rstrip_def)

lemma emitted_extend:
  assumes "emitted st0 filename st bodies"
    and "chunks st' = chunks st @ numbered_parts filename (1 + length bodies) extra"
    and "current_chunk st' = current_chunk st"
  shows "emitted st0 filename st' (bodies @ extra)"
proof -
  from assms(1) obtain new where
    n: "chunks st = chunks st0 @ new"
       "interleaved (current_chunk st0) (current_chunk st) new (numbered_parts filename 1 bodies)"
    by (auto simp: emitted_def)
  let ?m = "numbered_parts filename (1 + length bodies) extra"
  have p: "numbered_parts filename 1 (bodies @ extra) = numbered_parts filename 1 bodies @ ?m"
    by (rule numbered_parts_append)
  from n(2) have "interleaved (current_chunk st0) (current_chunk st') (new @ ?m)
       (numbered_parts filename 1 (bodies @ extra))"
    unfolding interleaved_def p assms(3)
  proof (elim disjE exE conjE)
    assume "new = numbered_parts filename 1 bodies" "current_chunk st = current_chunk st0"
    then show "new @ ?m = numbered_parts filename 1 bodies @ ?m \<and> current_chunk st = current_chunk st0
      \<or> (\<exists>ps1 ps2. new @ ?m = ps1 @ [strip (current_chunk st0)] @ ps2
            \<and> numbered_parts filename 1 bodies @ ?m = ps1 @ ps2 \<and> current_chunk st = [])"
      by simp
  next
    fix ps1 ps2
    assume a: "new = ps1 @ [strip (current_chunk st0)] @ ps2"
      "numbered_parts filename 1 bodies = ps1 @ ps2" "current_chunk st = []"
    then have "new @ ?m = ps1 @ [strip (current_chunk st0)] @ (ps2 @ ?m)
        \<and> numbered_parts filename 1 bodies @ ?m = ps1 @ (ps2 @ ?m) \<and> current_chunk st = []"
      by simp
    then show "new @ ?m = numbered_parts filename 1 bodies @ ?m \<and> current_chunk st = current_chunk st0
      \<or> (\<exists>ps1 ps2. new @ ?m = ps1 @ [strip (current_chunk st0)] @ ps2
            \<and> numbered_parts filename 1 bodies @ ?m = ps1 @ ps2 \<and> current_chunk st = [])"
      by blast
  qed
  with n(1) assms(2) show ?thesis by (auto simp: emitted_def)
qed

lemma emitted_flush:
  assumes "emitted st0 filename st bodies"
  shows "emitted st0 filename (flush_current_chunk st) bodies"
proof (cases "strip (current_chunk st) = []")
  case True
  with assms show ?thesis by (simp add: flush_current_chunk_def)
next
  case False
  then have c: "current_chunk st \<noteq> []" by auto
  from assms obtain new where
    n: "chunks st = chunks st0 @ new"
       "interleaved (current_chunk st0) (current_chunk st) new (numbered_parts filename 1 bodies)"
    by (auto simp: emitted_def)
  from n(2) c have e: "new = numbered_parts filename 1 bodies" "current_chunk st = current_chunk st0"
    by (auto simp: interleaved_def)
  have "interleaved (current_chunk st0) [] (new @ [strip (current_chunk st0)])
          (numbered_parts filename 1 bodies)"
    unfolding interleaved_def using e(1) by (intro disjI2 exI [of _ new] exI [of _ "[]"]) simp
  with False n(1) e(2) show ?thesis
    by (auto simp: emitted_def flush_current_chunk_def)
qed

lemma emitted_append_part:
  assumes "emitted st0 filename st bodies"
  shows "emitted st0 filename (append_part filename (1 + length bodies) body st) (bodies @ [body])"
proof -
  let ?f = "flush_current_chunk st"
  have "chunks (append_part filename (1 + length bodies) body st)
          = chunks ?f @ numbered_parts filename (1 + length bodies) [body]"
    by (simp add: append_part_def Let_def)
  moreover have "current_chunk (append_part filename (1 + length bodies) body st) = current_chunk ?f"
    by (simp add: append_part_def Let_def)
  ultimately show ?thesis
    using emitted_extend [OF emitted_flush [OF assms]] by blast
qed
text \<open>
  How the bodies of the parts of a file come from its lines.  The lines fall into
  consecutive groups, and each group gives a piece, a run of consecutive bodies: a group of
  lines that were accumulated gives one body, the lines joined by newlines; a line that was
  split stands alone in its group and gives its fragments, none empty, which concatenate to
  the line (no fragment at all when the line is empty).
\<close>

definition piece_of :: "string list \<Rightarrow> string list \<Rightarrow> bool" where
  "piece_of grp piece =
     (grp \<noteq> []
      \<and> (piece = [join_lines grp]
          \<or> (\<exists>line. grp = [line] \<and> concat piece = line \<and> [] \<notin> set piece)))"

definition parts_of_lines :: "string list \<Rightarrow> string list \<Rightarrow> bool" where
  "parts_of_lines lines bodies =
     (\<exists>groups pieces. concat groups = lines \<and> concat pieces = bodies
        \<and> list_all2 piece_of groups pieces)"

lemma parts_of_lines_Nil: "parts_of_lines [] []"
  unfolding parts_of_lines_def by (intro exI [of _ "[]"]) simp

lemma parts_of_lines_snoc:
  assumes "parts_of_lines lines bodies" "piece_of grp piece"
  shows "parts_of_lines (lines @ grp) (bodies @ piece)"
proof -
  from assms(1) obtain groups pieces where
    g: "concat groups = lines" "concat pieces = bodies" "list_all2 piece_of groups pieces"
    unfolding parts_of_lines_def by blast
  from g(3) assms(2) have "list_all2 piece_of (groups @ [grp]) (pieces @ [piece])"
    by (simp add: list_all2_appendI)
  moreover have "concat (groups @ [grp]) = lines @ grp" "concat (pieces @ [piece]) = bodies @ piece"
    using g(1,2) by simp_all
  ultimately show ?thesis unfolding parts_of_lines_def by blast
qed

lemma piece_of_joined: "grp \<noteq> [] \<Longrightarrow> piece_of grp [join_lines grp]"
  by (simp add: piece_of_def)

lemma piece_of_single: "piece_of [line] [line]"
  by (simp add: piece_of_def)

lemma piece_of_fragments: "concat frags = line \<Longrightarrow> [] \<notin> set frags \<Longrightarrow> piece_of [line] frags"
  by (auto simp: piece_of_def)

text \<open>
  Joining the texts of the pieces with newlines gives back the lines joined with newlines:
  the only characters missing from the bodies are the newlines between the groups.
\<close>

lemma join_lines_concat:
  "\<forall>g\<in>set groups. g \<noteq> [] \<Longrightarrow> join_lines (map join_lines groups) = join_lines (concat groups)"
proof (induction groups)
  case Nil
  show ?case by simp
next
  case (Cons g gs)
  show ?case
  proof (cases "gs = []")
    case True
    then show ?thesis by simp
  next
    case False
    with Cons.prems have c: "concat gs \<noteq> []" by (cases gs) auto
    from Cons.prems have gn: "g \<noteq> []" by simp
    from False have m: "map join_lines gs \<noteq> []" by simp
    have "join_lines (map join_lines (g # gs)) = join_lines ([join_lines g] @ map join_lines gs)"
      by simp
    also have "\<dots> = join_lines [join_lines g] @ newline # join_lines (map join_lines gs)"
      using m by (intro join_lines_append) simp_all
    also have "\<dots> = join_lines g @ newline # join_lines (concat gs)"
      using Cons by simp
    also have "\<dots> = join_lines (g @ concat gs)"
      using gn c by (simp add: join_lines_append)
    finally show ?thesis by simp
  qed
qed

lemma piece_of_text: "piece_of grp piece \<Longrightarrow> concat piece = join_lines grp"
  by (auto simp: piece_of_def)

lemma parts_of_lines_rebuild:
  assumes "parts_of_lines lines bodies"
  shows "\<exists>pieces. concat pieces = bodies \<and> join_lines (map concat pieces) = join_lines lines"
proof -
  from assms obtain groups pieces where
    g: "concat groups = lines" "concat pieces = bodies" "list_all2 piece_of groups pieces"
    unfolding parts_of_lines_def by blast
  from g(3) have "map concat pieces = map join_lines groups"
    by (induction rule: list_all2_induct) (simp_all add: piece_of_text)
  moreover from g(3) have "\<forall>g\<in>set groups. g \<noteq> []"
    by (induction rule: list_all2_induct) (simp_all add: piece_of_def)
  ultimately have "join_lines (map concat pieces) = join_lines lines"
    using join_lines_concat g(1) by simp
  with g(2) show ?thesis by blast
qed

text \<open>
  The invariant of the loops over the lines of a file: the parts emitted so far are
  numbered from 1 without a gap, their bodies come from the lines \<open>past\<close> already closed, and the lines
  seen so far are these followed by the lines of the open part.
\<close>

definition lines_inv ::
  "chunker \<Rightarrow> string \<Rightarrow> string list \<Rightarrow> chunker \<times> part_acc \<Rightarrow> bool" where
  "lines_inv st0 filename seen s =
     (case s of (st, pa) \<Rightarrow>
        \<exists>bodies past. emitted st0 filename st bodies
          \<and> part_number pa = 1 + length bodies
          \<and> parts_of_lines past bodies
          \<and> past @ part_lines pa = seen)"

lemma lines_invI:
  "emitted st0 filename st bodies \<Longrightarrow> part_number pa = 1 + length bodies \<Longrightarrow>
   parts_of_lines past bodies \<Longrightarrow> past @ part_lines pa = seen \<Longrightarrow>
   lines_inv st0 filename seen (st, pa)"
  unfolding lines_inv_def by auto

lemma lines_inv_first: "lines_inv st0 filename [] (st0, first_part)"
  by (rule lines_invI [OF emitted_refl _ parts_of_lines_Nil]) (simp_all add: first_part_def)

lemma add_line_inv:
  assumes "lines_inv st0 filename seen (st, pa)"
  shows "lines_inv st0 filename (seen @ [line])
           (add_line token_limit filename ht lt line (st, pa))"
proof -
  from assms obtain bodies past where
    b: "emitted st0 filename st bodies" "part_number pa = 1 + length bodies"
       "parts_of_lines past bodies" "past @ part_lines pa = seen"
    by (auto simp: lines_inv_def)
  consider (fits) "int (current_part_tokens pa + lt + ht) \<le> token_limit"
    | (flush) "\<not> int (current_part_tokens pa + lt + ht) \<le> token_limit" "part_lines pa \<noteq> []"
    | (single) "\<not> int (current_part_tokens pa + lt + ht) \<le> token_limit" "part_lines pa = []"
    by blast
  then show ?thesis
  proof cases
    case fits
    then have r: "add_line token_limit filename ht lt line (st, pa)
        = (st, pa\<lparr>part_lines := part_lines pa @ [line],
                     current_part_tokens := current_part_tokens pa + lt\<rparr>)"
      by (simp add: add_line_def)
    show ?thesis unfolding r
      using b(2,4) by (intro lines_invI [OF b(1) _ b(3)]) simp_all
  next
    case flush
    let ?body = "join_lines (part_lines pa)"
    from emitted_append_part [OF b(1), of ?body] b(2)
    have "emitted st0 filename (append_part filename (part_number pa) ?body st) (bodies @ [?body])"
      by simp
    moreover have "parts_of_lines (past @ part_lines pa) (bodies @ [?body])"
      by (intro parts_of_lines_snoc b(3) piece_of_joined flush(2))
    moreover have "add_line token_limit filename ht lt line (st, pa)
        = (append_part filename (part_number pa) ?body st,
           pa\<lparr>part_number := part_number pa + 1, part_lines := [line], current_part_tokens := lt\<rparr>)"
      using flush by (simp add: add_line_def)
    ultimately show ?thesis using b(2,4)
      by (auto intro!: lines_invI [where bodies = "bodies @ [?body]" and past = "past @ part_lines pa"])
  next
    case single
    from emitted_append_part [OF b(1), of line] b(2)
    have "emitted st0 filename (append_part filename (part_number pa) line st) (bodies @ [line])"
      by simp
    moreover have "parts_of_lines (past @ [line]) (bodies @ [line])"
      by (intro parts_of_lines_snoc b(3) piece_of_single)
    moreover have "add_line token_limit filename ht lt line (st, pa)
        = (append_part filename (part_number pa) line st,
           pa\<lparr>part_number := part_number pa + 1\<rparr>)"
      using single by (simp add: add_line_def)
    ultimately show ?thesis using single b(2,4)
      by (auto intro!: lines_invI [where bodies = "bodies @ [line]" and past = "past @ [line]"])
  qed
qed

lemma short_line_step_inv:
  "lines_inv st0 filename seen (st, pa) \<Longrightarrow>
   lines_inv st0 filename (seen @ [line])
     (short_line_step ct token_limit filename (st, pa) line)"
  by (simp add: short_line_step_def Let_def add_line_inv)

lemma long_line_step_inv:
  assumes "lines_inv st0 filename seen (st, pa)"
  shows "lines_inv st0 filename (seen @ [line])
           (long_line_step ct token_limit filename (st, pa) line)"
proof -
  let ?ht = "ct (format_file_section (part_name (part_number pa) filename) [])"
  show ?thesis
  proof (cases "int (ct line) > token_limit - int ?ht")
    case False
    then show ?thesis by (simp add: long_line_step_def Let_def add_line_inv [OF assms])
  next
    case long: True
    from assms obtain bodies past where
      b: "emitted st0 filename st bodies" "part_number pa = 1 + length bodies"
         "parts_of_lines past bodies" "past @ part_lines pa = seen"
      by (auto simp: lines_inv_def)
    define st1 where "st1 = (if part_lines pa \<noteq> []
        then append_part filename (part_number pa) (join_lines (part_lines pa)) st else st)"
    define pa1 where "pa1 = (if part_lines pa \<noteq> []
        then pa\<lparr>part_number := part_number pa + 1, part_lines := [], current_part_tokens := 0\<rparr>
        else pa)"
    define bodies1 where "bodies1 = (if part_lines pa \<noteq> []
        then bodies @ [join_lines (part_lines pa)] else bodies)"
    have e1: "emitted st0 filename st1 bodies1"
      unfolding st1_def bodies1_def
      using emitted_append_part [OF b(1), of "join_lines (part_lines pa)"] b(1,2) by simp
    have n1: "part_number pa1 = 1 + length bodies1" "part_lines pa1 = []"
      unfolding pa1_def bodies1_def using b(2) by auto
    have s1: "parts_of_lines seen bodies1"
    proof (cases "part_lines pa = []")
      case True
      with b(3,4) show ?thesis by (simp add: bodies1_def)
    next
      case False
      from parts_of_lines_snoc [OF b(3) piece_of_joined [OF False]] b(4) False
      show ?thesis by (simp add: bodies1_def)
    qed
    from split_long_line_shape [of ct line filename "part_number pa1" token_limit]
    obtain frags where
      f: "split_long_line ct line filename (part_number pa1) token_limit
            = numbered_parts filename (part_number pa1) frags"
         "concat frags = line" "[] \<notin> set frags" by blast
    let ?st' = "st1\<lparr>chunks := chunks st1 @ split_long_line ct line filename (part_number pa1) token_limit\<rparr>"
    let ?pa' = "pa1\<lparr>part_number := part_number pa1
                    + length (split_long_line ct line filename (part_number pa1) token_limit)\<rparr>"
    from long have r: "long_line_step ct token_limit filename (st, pa) line = (?st', ?pa')"
      by (auto simp: long_line_step_def Let_def st1_def pa1_def)
    have "emitted st0 filename ?st' (bodies1 @ frags)"
      using f(1) n1(1) by (intro emitted_extend [OF e1]) simp_all
    moreover have "part_number ?pa' = 1 + length (bodies1 @ frags)"
      using f(1) n1(1) by simp
    moreover have "parts_of_lines (seen @ [line]) (bodies1 @ frags)"
      by (intro parts_of_lines_snoc s1 piece_of_fragments f(2,3))
    moreover have "(seen @ [line]) @ part_lines ?pa' = seen @ [line]"
      using n1(2) by simp
    ultimately show ?thesis unfolding r by (rule lines_invI)
  qed
qed

lemma foldl_long_inv:
  "lines_inv st0 filename seen s \<Longrightarrow>
   lines_inv st0 filename (seen @ lines)
     (foldl (long_line_step ct token_limit filename) s lines)"
proof (induction lines arbitrary: s seen)
  case Nil
  then show ?case by simp
next
  case (Cons l ls)
  obtain st pa where s: "s = (st, pa)" by (cases s)
  from long_line_step_inv [OF Cons.prems [unfolded s], of l ct token_limit]
  have "lines_inv st0 filename (seen @ [l])
          (long_line_step ct token_limit filename s l)" by (simp add: s)
  from Cons.IH [OF this] show ?case by simp
qed

lemma foldl_short_inv:
  "lines_inv st0 filename seen s \<Longrightarrow>
   lines_inv st0 filename (seen @ lines)
     (foldl (short_line_step ct token_limit filename) s lines)"
proof (induction lines arbitrary: s seen)
  case Nil
  then show ?case by simp
next
  case (Cons l ls)
  obtain st pa where s: "s = (st, pa)" by (cases s)
  from short_line_step_inv [OF Cons.prems [unfolded s], of l ct token_limit]
  have "lines_inv st0 filename (seen @ [l])
          (short_line_step ct token_limit filename s l)" by (simp add: s)
  from Cons.IH [OF this] show ?case by simp
qed

lemma finish_parts_inv:
  assumes "lines_inv st0 filename seen s"
  shows "\<exists>bodies. emitted st0 filename (finish_parts filename s) bodies
           \<and> parts_of_lines seen bodies"
proof -
  obtain st pa where s: "s = (st, pa)" by (cases s)
  from assms obtain bodies past where
    b: "emitted st0 filename st bodies" "part_number pa = 1 + length bodies"
       "parts_of_lines past bodies" "past @ part_lines pa = seen"
    by (auto simp: lines_inv_def s)
  show ?thesis
  proof (cases "part_lines pa = []")
    case True
    with b show ?thesis by (auto simp: finish_parts_def s)
  next
    case False
    let ?body = "join_lines (part_lines pa)"
    from emitted_append_part [OF b(1), of ?body] b(2)
    have "emitted st0 filename (append_part filename (part_number pa) ?body st) (bodies @ [?body])"
      by simp
    moreover from parts_of_lines_snoc [OF b(3) piece_of_joined [OF False]] b(4)
    have "parts_of_lines seen (bodies @ [?body])" by simp
    ultimately show ?thesis using False by (auto simp: finish_parts_def s)
  qed
qed

text \<open>A file that is not taken whole is emitted in parts whose bodies come from its lines.\<close>

lemma process_file_parts:
  assumes "has_long_lines ct token_limit filename (split_lines content)
           \<or> \<not> int (ct (format_file_section filename content)) \<le> token_limit"
  shows "\<exists>bodies. emitted st filename (process_file ct token_limit st filename content) bodies
           \<and> parts_of_lines (split_lines content) bodies"
proof (cases "has_long_lines ct token_limit filename (split_lines content)")
  case True
  from finish_parts_inv [OF foldl_long_inv [OF lines_inv_first, of st filename "split_lines content"
        ct token_limit]]
  show ?thesis using True by (simp add: process_file_def)
next
  case False
  with assms have n: "\<not> int (ct (format_file_section filename content)) \<le> token_limit" by simp
  from finish_parts_inv [OF foldl_short_inv [OF lines_inv_first, of st filename "split_lines content"
        ct token_limit]]
  show ?thesis using False n by (simp add: process_file_def Let_def)
qed
section \<open>The accumulator\<close>












section \<open>Chunks emitted or pending\<close>



lemma chunks_flush_mono: "chunks st \<noteq> [] \<Longrightarrow> chunks (flush_current_chunk st) \<noteq> []"
  by (simp add: flush_current_chunk_def)






















section \<open>Termination and progress\<close>














end
